theory Spec2Isabelle
  imports Main "HOL-Library.Word" "HOL-Library.Signed_Division"
begin

section \<open>Machine integers of the program\<close>

text \<open>
  The program computes with the C++ type \<open>int\<close>, taken here as a 32-bit two's complement
  value: \<open>+\<close> and \<open>-\<close> wrap around modulo \<open>2 ^ 32\<close>, \<open>sint\<close> reads the signed value.
  (The language leaves signed overflow undefined; the wrap-around is what the usual
  compilers and machines do with this code.)
  \<open>time(0)\<close> returns a \<open>long int\<close> (64 bits), and \<open>srand\<close> takes an \<open>unsigned int\<close>.
\<close>

type_synonym cint = "32 word"
type_synonym clong = "64 word"
type_synonym cuint = "32 word"

definition INT_MIN :: cint where
  "INT_MIN = - 2147483648"

definition INT_MAX :: cint where
  "INT_MAX = 2147483647"

text \<open>
  The arithmetic faults of the built-in operator \<open>%\<close>: a zero divisor, and the one
  quotient that does not fit (\<open>INT_MIN % -1\<close>). Both stop the process.
\<close>

datatype fault = DivideByZero | QuotientOverflow

text \<open>
  The built-in \<open>a % b\<close> on \<open>int\<close>: the remainder of the division that truncates towards
  zero (\<open>smod\<close> on the signed values), so its sign follows \<open>a\<close>.
\<close>

definition int_rem :: "cint \<Rightarrow> cint \<Rightarrow> fault + cint" where
  "int_rem a b =
     (if b = 0 then Inl DivideByZero
      else if a = INT_MIN \<and> b = - 1 then Inl QuotientOverflow
      else Inr (word_of_int (sint a smod sint b)))"


section \<open>The library generator and the process state\<close>

text \<open>
  \<open>rand\<close>, \<open>srand\<close> and \<open>RAND_MAX\<close> come from \<open>cstdlib\<close>, not from the program, so
  the generator is a parameter: its hidden state has some type \<open>'s\<close>, \<open>srand\<close> sets that
  state from the seed, \<open>rand\<close> returns a value and the next state.
\<close>

record 's prng =
  lib_RAND_MAX :: cint
  lib_srand :: "cuint \<Rightarrow> 's"
  lib_rand :: "'s \<Rightarrow> cint \<times> 's"

text \<open>What the C standard promises of \<open>rand\<close>: every value lies in \<open>[0, RAND_MAX]\<close>.\<close>

definition prng_ok :: "'s prng \<Rightarrow> bool" where
  "prng_ok g \<longleftrightarrow>
     (\<forall>s. 0 \<le> sint (fst (lib_rand g s)) \<and> sint (fst (lib_rand g s)) \<le> sint (lib_RAND_MAX g))"

text \<open>A call of the library, as the process makes it: the seed given, the value returned.\<close>

datatype libcall = CallSrand cuint | CallRand cint

text \<open>
  The state of the process that the program touches: the generator's hidden state, the
  library calls made so far (oldest first) and the text written to \<open>cout\<close>.
\<close>

record 's world =
  gen_state :: 's
  lib_calls :: "libcall list"
  stdout :: string

definition srand :: "'s prng \<Rightarrow> cuint \<Rightarrow> 's world \<Rightarrow> 's world" where
  "srand g seed w = w\<lparr>gen_state := lib_srand g seed, lib_calls := lib_calls w @ [CallSrand seed]\<rparr>"

definition rand :: "'s prng \<Rightarrow> 's world \<Rightarrow> cint \<times> 's world" where
  "rand g w =
     (case lib_rand g (gen_state w) of
        (r, s') \<Rightarrow> (r, w\<lparr>gen_state := s', lib_calls := lib_calls w @ [CallRand r]\<rparr>))"


section \<open>Writing to cout\<close>

definition newline :: char where
  "newline = CHR 0x0A"

fun dec_digits :: "nat \<Rightarrow> string" where
  "dec_digits n =
     (if n < 10 then [char_of (48 + n)]
      else dec_digits (n div 10) @ [char_of (48 + n mod 10)])"

declare dec_digits.simps [simp del]

text \<open>\<open>cout << k\<close> for an \<open>int\<close>: the decimal digits, after a minus sign when negative.\<close>

definition show_int :: "int \<Rightarrow> string" where
  "show_int k = (if k < 0 then CHR ''-'' # dec_digits (nat (- k)) else dec_digits (nat k))"

definition cout_str :: "string \<Rightarrow> 's world \<Rightarrow> 's world" where
  "cout_str t w = w\<lparr>stdout := stdout w @ t\<rparr>"

definition cout_int :: "cint \<Rightarrow> 's world \<Rightarrow> 's world" where
  "cout_int k w = cout_str (show_int (sint k)) w"

definition cout_endl :: "'s world \<Rightarrow> 's world" where
  "cout_endl w = cout_str [newline] w"


section \<open>The program\<close>

definition REPETITIONS :: cint where
  "REPETITIONS = 10"

text \<open>
  \<^verbatim>\<open>return (rand() % (high - low + 1)) + low;\<close>
  One call of \<open>rand\<close>, then the remainder by the size computed in \<open>int\<close>, then the
  offset. A fault of \<open>%\<close> ends the call with no value.
\<close>

definition rand_range :: "'s prng \<Rightarrow> cint \<Rightarrow> cint \<Rightarrow> 's world \<Rightarrow> fault + (cint \<times> 's world)" where
  "rand_range g low high w =
     (case rand g w of
        (r, w') \<Rightarrow>
          (case int_rem r (high - low + 1) of
             Inl e \<Rightarrow> Inl e
           | Inr m \<Rightarrow> Inr (m + low, w')))"

text \<open>
  The first loop of \<open>main\<close>:
  \<^verbatim>\<open>for (int i = 1; i <= REPETITIONS; i++) { random = rand(); cout << random << endl; }\<close>
\<close>

function main_loop1 :: "'s prng \<Rightarrow> cint \<Rightarrow> 's world \<Rightarrow> 's world" where
  "main_loop1 g i w =
     (if sint i \<le> sint REPETITIONS then
        (case rand g w of
           (random, w1) \<Rightarrow> main_loop1 g (i + 1) (cout_endl (cout_int random w1)))
      else w)"
  by pat_completeness auto
termination
proof (relation "measure (\<lambda>(g, i, w). nat (sint REPETITIONS + 1 - sint i))")
  fix i :: cint
  assume le: "sint i \<le> sint REPETITIONS"
  have "sint (i + 1) = signed_take_bit 31 (sint i + 1)"
    by (simp add: sint_word_ariths)
  also have "\<dots> = sint i + 1"
    using le sint_ge [of i] by (intro signed_take_bit_int_eq_self) (simp_all add: REPETITIONS_def)
  finally have "sint (i + 1) = sint i + 1" .
  with le show "((g, i + 1, cout_endl (cout_int x y)), g, i, w)
      \<in> measure (\<lambda>(g, i, w). nat (sint REPETITIONS + 1 - sint i))"
    for g :: "'s prng" and x y w
    by simp
qed simp

declare main_loop1.simps [simp del]

text \<open>
  The second loop of \<open>main\<close>:
  \<^verbatim>\<open>for (int i = 1; i <= REPETITIONS; i++) { random = rand_range(low, high); cout << random << endl; }\<close>
\<close>

function main_loop2 :: "'s prng \<Rightarrow> cint \<Rightarrow> cint \<Rightarrow> cint \<Rightarrow> 's world \<Rightarrow> fault + 's world" where
  "main_loop2 g low high i w =
     (if sint i \<le> sint REPETITIONS then
        (case rand_range g low high w of
           Inl e \<Rightarrow> Inl e
         | Inr (random, w1) \<Rightarrow> main_loop2 g low high (i + 1) (cout_endl (cout_int random w1)))
      else Inr w)"
  by pat_completeness auto
termination
proof (relation "measure (\<lambda>(g, low, high, i, w). nat (sint REPETITIONS + 1 - sint i))")
  fix i :: cint
  assume le: "sint i \<le> sint REPETITIONS"
  have "sint (i + 1) = signed_take_bit 31 (sint i + 1)"
    by (simp add: sint_word_ariths)
  also have "\<dots> = sint i + 1"
    using le sint_ge [of i] by (intro signed_take_bit_int_eq_self) (simp_all add: REPETITIONS_def)
  finally have "sint (i + 1) = sint i + 1" .
  with le show "((g, low, high, i + 1, cout_endl (cout_int x y)), g, low, high, i, w)
      \<in> measure (\<lambda>(g, low, high, i, w). nat (sint REPETITIONS + 1 - sint i))"
    for g :: "'s prng" and low high x y w
    by simp
qed simp

declare main_loop2.simps [simp del]

text \<open>
  \<open>main\<close>, given the clock reading \<open>now\<close> that \<open>time(0)\<close> returns. \<open>int(time(0))\<close> keeps
  the low 32 bits, which \<open>srand\<close> receives as its \<open>unsigned int\<close> seed.
\<close>

definition main :: "'s prng \<Rightarrow> clong \<Rightarrow> 's world \<Rightarrow> fault + 's world" where
  "main g now w0 =
     (let w1 = srand g (ucast now) w0;
          w2 = cout_endl w1;
          w3 = cout_str ''Displaying '' w2;
          w4 = cout_int REPETITIONS w3;
          w5 = cout_str '' random numbers between 0 and '' w4;
          w6 = cout_int (lib_RAND_MAX g) w5;
          w7 = cout_endl w6;
          w8 = main_loop1 g 1 w7;
          low = 200;
          high = 300;
          w9 = cout_endl w8;
          w10 = cout_str ''Displaying '' w9;
          w11 = cout_int REPETITIONS w10;
          w12 = cout_str '' random numbers between '' w11;
          w13 = cout_int low w12;
          w14 = cout_str '' and '' w13;
          w15 = cout_int high w14;
          w16 = cout_endl w15
      in main_loop2 g low high 1 w16)"


section \<open>Vocabulary of the properties\<close>

text \<open>
  The algorithm of the specification, in its words and over the mathematical integers:
  take one unranged draw \<open>r\<close>; compute \<open>size = high - low + 1\<close>; compute
  \<open>result = (r mod size) + low\<close>.
\<close>

definition spec_range_map :: "int \<Rightarrow> int \<Rightarrow> int \<Rightarrow> int" where
  "spec_range_map r low high = (let size = high - low + 1 in r mod size + low)"

text \<open>
  A concrete library to run the program on: the portable generator that the C standard
  prints as its example,
  \<^verbatim>\<open>next = next * 1103515245 + 12345; return (unsigned int)(next/65536) % 32768;\<close>
  with \<open>srand\<close> storing the seed in \<open>next\<close> and \<open>RAND_MAX = 32767\<close>.
\<close>

definition iso_prng :: "32 word prng" where
  "iso_prng =
     \<lparr>lib_RAND_MAX = 32767,
      lib_srand = (\<lambda>seed. seed),
      lib_rand = (\<lambda>next. let n = next * 1103515245 + 12345
                          in (ucast ((n div 65536) mod 32768), n))\<rparr>"

text \<open>A process that has called nothing and written nothing, its generator in state \<open>s\<close>.\<close>

definition boot :: "'s \<Rightarrow> 's world" where
  "boot s = \<lparr>gen_state = s, lib_calls = [], stdout = []\<rparr>"


text \<open>
  The values of the next \<open>n\<close> calls of \<open>rand\<close> from the generator state \<open>s\<close>, and the
  state they leave.
\<close>

fun draws :: "'s prng \<Rightarrow> 's \<Rightarrow> nat \<Rightarrow> cint list" where
  "draws g s 0 = []"
| "draws g s (Suc n) = (case lib_rand g s of (r, s') \<Rightarrow> r # draws g s' n)"

fun after_draws :: "'s prng \<Rightarrow> 's \<Rightarrow> nat \<Rightarrow> 's" where
  "after_draws g s 0 = s"
| "after_draws g s (Suc n) = after_draws g (snd (lib_rand g s)) n"

text \<open>Values as \<open>cout\<close> prints them in the loops, each followed by \<open>endl\<close>.\<close>

definition value_lines :: "cint list \<Rightarrow> string" where
  "value_lines vs = concat (map (\<lambda>v. show_int (sint v) @ [newline]) vs)"

text \<open>The value \<open>rand_range(low, high)\<close> makes of the draw \<open>r\<close> when \<open>%\<close> does not fault.\<close>

definition ranged :: "cint \<Rightarrow> cint \<Rightarrow> cint \<Rightarrow> cint" where
  "ranged low high r = word_of_int (sint r smod sint (high - low + 1)) + low"

text \<open>The values that the logged calls of \<open>rand\<close> returned, in order.\<close>

definition drawn :: "libcall list \<Rightarrow> cint list" where
  "drawn cs = concat (map (\<lambda>c. case c of CallRand r \<Rightarrow> [r] | CallSrand _ \<Rightarrow> []) cs)"

text \<open>The repetition count as a number of iterations, and the two header lines.\<close>

definition reps :: nat where
  "reps = nat (sint REPETITIONS)"

definition block1_header :: "'s prng \<Rightarrow> string" where
  "block1_header g =
     ''Displaying '' @ show_int (sint REPETITIONS) @ '' random numbers between 0 and ''
       @ show_int (sint (lib_RAND_MAX g))"

definition block2_header :: string where
  "block2_header =
     ''Displaying '' @ show_int (sint REPETITIONS) @ '' random numbers between ''
       @ show_int 200 @ '' and '' @ show_int 300"


text \<open>
  The lines of a text: the pieces that end in a newline, and what follows the last
  newline when that is not empty.
\<close>

fun lines_of :: "string \<Rightarrow> string list" where
  "lines_of [] = []"
| "lines_of (c # cs) =
     (if c = newline then [] # lines_of cs
      else (case lines_of cs of [] \<Rightarrow> [[c]] | l # ls \<Rightarrow> (c # l) # ls))"


section \<open>Arithmetic of the range mapping\<close>

lemma sint_size_no_overflow:
  fixes low high :: cint
  assumes "- (2 ^ 31) \<le> sint high - sint low + 1" "sint high - sint low + 1 < 2 ^ 31"
  shows "sint (high - low + 1) = sint high - sint low + 1"
proof -
  have "high - low + 1 = (word_of_int (sint high - sint low + 1) :: cint)"
    by simp
  then have "sint (high - low + 1) = signed_take_bit 31 (sint high - sint low + 1)"
    by (simp only: sint_sbintrunc') simp
  also have "\<dots> = sint high - sint low + 1"
    using assms by (intro signed_take_bit_int_eq_self) simp_all
  finally show ?thesis .
qed

lemma int_rem_nonneg_pos:
  fixes r b :: cint
  assumes "0 \<le> sint r" "0 < sint b"
  shows "int_rem r b = Inr (word_of_int (sint r mod sint b))"
    and "sint (word_of_int (sint r mod sint b) :: cint) = sint r mod sint b"
proof -
  have b0: "b \<noteq> 0" using assms(2) by auto
  have r0: "r \<noteq> INT_MIN" using assms(1) by (auto simp: INT_MIN_def)
  have "sint r smod sint b = sint r mod sint b"
    using assms by (simp add: smod_int_alt_def sgn_if)
  then show "int_rem r b = Inr (word_of_int (sint r mod sint b))"
    using b0 r0 by (simp add: int_rem_def)
  have "0 \<le> sint r mod sint b" "sint r mod sint b < sint b"
    using assms by simp_all
  moreover have "sint b < 2 ^ 31" using sint_lt [of b] by simp
  ultimately show "sint (word_of_int (sint r mod sint b) :: cint) = sint r mod sint b"
    by (simp add: sint_sbintrunc' signed_take_bit_int_eq_self)
qed

lemma int_rem_nonneg_neg:
  fixes r b :: cint
  assumes "0 \<le> sint r" "sint b < 0"
  shows "int_rem r b = Inr (word_of_int (sint r mod \<bar>sint b\<bar>))"
proof -
  have b0: "b \<noteq> 0" using assms(2) by auto
  have r0: "r \<noteq> INT_MIN" using assms(1) by (auto simp: INT_MIN_def)
  have "sint r smod sint b = sint r mod \<bar>sint b\<bar>"
    using assms by (simp add: smod_int_alt_def sgn_if)
  then show ?thesis
    using b0 r0 by (simp add: int_rem_def)
qed

lemma int_rem_fault_iff:
  fixes r b :: cint
  assumes "0 \<le> sint r"
  shows "(\<exists>e. int_rem r b = Inl e) \<longleftrightarrow> b = 0"
proof -
  have "r \<noteq> INT_MIN" using assms by (auto simp: INT_MIN_def)
  then show ?thesis by (simp add: int_rem_def)
qed

lemma rand_eq:
  "rand g w = (fst (lib_rand g (gen_state w)),
     w\<lparr>gen_state := snd (lib_rand g (gen_state w)),
       lib_calls := lib_calls w @ [CallRand (fst (lib_rand g (gen_state w)))]\<rparr>)"
  by (simp add: rand_def split: prod.split)

lemma rand_range_zero_size:
  assumes "high - low + 1 = 0"
  shows "rand_range g low high w = Inl DivideByZero"
  using assms by (simp add: rand_range_def int_rem_def split: prod.split)

lemma full_range_size: "INT_MAX - INT_MIN + 1 = (0::cint)"
  by (simp add: INT_MAX_def INT_MIN_def)

lemma ranged_valid:
  fixes low high r :: cint
  assumes r: "0 \<le> sint r"
    and lh: "sint low \<le> sint high"
    and fit: "sint high - sint low + 1 < 2 ^ 31"
  shows "int_rem r (high - low + 1) = Inr (ranged low high r - low)"
    and "sint (ranged low high r) = sint r mod (sint high - sint low + 1) + sint low"
proof -
  let ?n = "sint high - sint low + 1"
  have size: "sint (high - low + 1) = ?n"
    using lh fit by (intro sint_size_no_overflow) simp_all
  have pos: "0 < sint (high - low + 1)"
    using size lh by simp
  have smod: "sint r smod ?n = sint r mod ?n"
    using r lh by (simp add: smod_int_alt_def sgn_if)
  have v: "ranged low high r = word_of_int (sint r mod ?n) + low"
    by (simp add: ranged_def size smod)
  show "int_rem r (high - low + 1) = Inr (ranged low high r - low)"
    using int_rem_nonneg_pos(1) [OF r pos] size v by simp
  have m: "sint (word_of_int (sint r mod ?n) :: cint) = sint r mod ?n"
    using int_rem_nonneg_pos(2) [OF r pos] size by simp
  have m0: "0 \<le> sint r mod ?n"
    using lh by simp
  have m1: "sint r mod ?n < ?n"
    using lh by (intro pos_mod_bound) simp
  have "sint (ranged low high r) = signed_take_bit 31 (sint r mod ?n + sint low)"
    using m by (simp add: v sint_word_ariths)
  also have "\<dots> = sint r mod ?n + sint low"
    using m0 m1 sint_ge [of low] sint_lt [of high]
    by (intro signed_take_bit_int_eq_self) simp_all
  finally show "sint (ranged low high r) = sint r mod ?n + sint low" .
qed

lemma rand_range_valid:
  fixes low high :: cint
  assumes rw: "rand g w = (r, w')"
    and r: "0 \<le> sint r"
    and lh: "sint low \<le> sint high"
    and fit: "sint high - sint low + 1 < 2 ^ 31"
  shows "\<exists>v. rand_range g low high w = Inr (v, w')
           \<and> sint v = sint r mod (sint high - sint low + 1) + sint low"
proof -
  have "rand_range g low high w = Inr (ranged low high r, w')"
    by (simp add: rand_range_def rw ranged_valid(1) [OF r lh fit])
  then show ?thesis
    using ranged_valid(2) [OF r lh fit] by blast
qed

lemma size_zero_iff:
  fixes low high :: cint
  shows "high - low + 1 = 0 \<longleftrightarrow>
    sint high = sint low - 1 \<or> (low = INT_MIN \<and> high = INT_MAX)"
proof
  assume z: "high - low + 1 = 0"
  then have "high + 1 - low = 0" by (simp add: diff_add_eq)
  then have hl: "low = high + 1" by simp
  show "sint high = sint low - 1 \<or> (low = INT_MIN \<and> high = INT_MAX)"
  proof (cases "high = INT_MAX")
    case True
    with hl show ?thesis by (simp add: INT_MAX_def INT_MIN_def)
  next
    case False
    have "sint high \<noteq> 2147483647"
    proof
      assume "sint high = 2147483647"
      then have "(word_of_int (sint high) :: cint) = word_of_int 2147483647"
        by (rule arg_cong)
      then have "high = INT_MAX"
        by (simp add: INT_MAX_def)
      with False show False by simp
    qed
    then have "sint high + 1 < 2 ^ 31"
      using sint_lt [of high] by simp
    moreover have "- (2 ^ 31) \<le> sint high + 1"
      using sint_ge [of high] by simp
    moreover have "sint (high + 1) = signed_take_bit 31 (sint high + 1)"
      by (simp add: sint_word_ariths)
    ultimately have "sint (high + 1) = sint high + 1"
      by (simp add: signed_take_bit_int_eq_self)
    with hl show ?thesis by simp
  qed
next
  assume "sint high = sint low - 1 \<or> (low = INT_MIN \<and> high = INT_MAX)"
  then show "high - low + 1 = 0"
  proof
    assume "sint high = sint low - 1"
    then have "(word_of_int (sint high) :: cint) = word_of_int (sint low - 1)"
      by simp
    then have "high = low - 1" by simp
    then show ?thesis by simp
  next
    assume "low = INT_MIN \<and> high = INT_MAX"
    then show ?thesis by (simp add: full_range_size)
  qed
qed

lemma iso_first_draw:
  "rand iso_prng (boot 1) =
     (16838, \<lparr>gen_state = 1103527590, lib_calls = [CallRand 16838], stdout = []\<rparr>)"
  by (simp add: rand_def iso_prng_def boot_def)

lemma reversed_size_nonzero:
  fixes low high :: cint
  assumes "sint high < sint low - 1"
  shows "high - low + 1 \<noteq> 0"
proof
  assume "high - low + 1 = 0"
  then have "sint high = sint low - 1 \<or> (low = INT_MIN \<and> high = INT_MAX)"
    by (simp only: size_zero_iff)
  then show False
    using assms by (auto simp: INT_MIN_def INT_MAX_def)
qed

lemma rand_range_fault_iff:
  assumes rw: "rand g w = (r, w')" and r: "0 \<le> sint r"
  shows "(\<exists>e. rand_range g low high w = Inl e) \<longleftrightarrow> high - low + 1 = 0"
proof -
  have "(\<exists>e. rand_range g low high w = Inl e) \<longleftrightarrow> (\<exists>e. int_rem r (high - low + 1) = Inl e)"
    by (simp add: rand_range_def rw split: sum.split)
  then show ?thesis
    using int_rem_fault_iff [OF r] by simp
qed

lemma iso_draw_5:
  "rand iso_prng (boot 2507187843) =
     (5, \<lparr>gen_state = 327680, lib_calls = [CallRand 5], stdout = []\<rparr>)"
  by (simp add: rand_def iso_prng_def boot_def)

lemma sint_inject:
  fixes u v :: cint
  assumes "sint u = sint v"
  shows "u = v"
proof -
  have "(word_of_int (sint u) :: cint) = word_of_int (sint v)"
    using assms by (rule arg_cong)
  then show ?thesis by simp
qed

lemma rand_range_20_30:
  assumes r: "0 \<le> sint (fst (rand g w))"
  shows "\<exists>v. rand_range g 20 30 w = Inr (v, snd (rand g w))
           \<and> sint v = sint (fst (rand g w)) mod 11 + 20"
proof -
  have rw: "rand g w = (fst (rand g w), snd (rand g w))"
    by simp
  show ?thesis
    using rand_range_valid [OF rw r, of 20 30] by simp
qed


lemma sint_size_wrapped:
  fixes low high :: cint
  assumes "2 ^ 31 \<le> sint high - sint low + 1" "sint high - sint low + 1 < 2 ^ 32"
  shows "sint (high - low + 1) = sint high - sint low + 1 - 2 ^ 32"
proof -
  let ?n = "sint high - sint low + 1"
  have "high - low + 1 = (word_of_int (?n - 2 ^ 32) :: cint)"
    by simp
  then have "sint (high - low + 1) = signed_take_bit 31 (?n - 2 ^ 32)"
    by (simp only: sint_sbintrunc') simp
  also have "\<dots> = ?n - 2 ^ 32"
    using assms by (intro signed_take_bit_int_eq_self) simp_all
  finally show ?thesis .
qed

text \<open>
  Beyond the claims: on every interval \<open>low \<le> high\<close> other than the whole of \<open>int\<close>
  the result lies in \<open>[low, high]\<close>, also when the size has wrapped to a negative value
  (the remainder is then taken by \<open>2 ^ 32 - size\<close>, which is at most the true size).
\<close>

lemma rand_range_in_range_unless_full:
  fixes low high :: cint
  assumes rw: "rand g w = (r, w')"
    and r: "0 \<le> sint r"
    and lh: "sint low \<le> sint high"
    and nf: "\<not> (low = INT_MIN \<and> high = INT_MAX)"
  shows "\<exists>v. rand_range g low high w = Inr (v, w') \<and> sint low \<le> sint v \<and> sint v \<le> sint high"
proof (cases "sint high - sint low + 1 < 2 ^ 31")
  case True
  obtain v where v: "rand_range g low high w = Inr (v, w')"
      "sint v = sint r mod (sint high - sint low + 1) + sint low"
    using rand_range_valid [OF rw r lh True] by blast
  have "0 \<le> sint r mod (sint high - sint low + 1)"
    using lh by simp
  moreover have "sint r mod (sint high - sint low + 1) < sint high - sint low + 1"
    using lh by (intro pos_mod_bound) simp
  ultimately show ?thesis
    using v by auto
next
  case False
  let ?n = "sint high - sint low + 1"
  have big: "2 ^ 31 \<le> ?n"
    using False by simp
  have "?n \<noteq> 2 ^ 32"
  proof
    assume "?n = 2 ^ 32"
    then have "sint high = 2147483647 \<and> sint low = - 2147483648"
      using sint_lt [of high] sint_ge [of low] by simp
    then have "sint high = sint INT_MAX \<and> sint low = sint INT_MIN"
      by (simp add: INT_MAX_def INT_MIN_def)
    then have "high = INT_MAX \<and> low = INT_MIN"
      using sint_inject by blast
    with nf show False by simp
  qed
  then have small: "?n < 2 ^ 32"
    using sint_lt [of high] sint_ge [of low] by simp
  have size: "sint (high - low + 1) = ?n - 2 ^ 32"
    using big small by (rule sint_size_wrapped)
  then have neg: "sint (high - low + 1) < 0"
    using small by simp
  let ?m = "sint r mod (2 ^ 32 - ?n)"
  have abs: "\<bar>sint (high - low + 1)\<bar> = 2 ^ 32 - ?n"
    using size neg by linarith
  have rem: "int_rem r (high - low + 1) = Inr (word_of_int ?m)"
    using int_rem_nonneg_neg [OF r neg] unfolding abs .
  have m0: "0 \<le> ?m"
    using small by simp
  have m1: "?m < 2 ^ 32 - ?n"
    using small by (intro pos_mod_bound) simp
  have "(word_of_int ?m :: cint) + low = word_of_int (?m + sint low)"
    by simp
  then have "sint ((word_of_int ?m :: cint) + low) = signed_take_bit 31 (?m + sint low)"
    by (simp only: sint_sbintrunc') simp
  also have "\<dots> = ?m + sint low"
    using m0 m1 big sint_ge [of low] sint_lt [of high]
    by (intro signed_take_bit_int_eq_self) simp_all
  finally have v: "sint ((word_of_int ?m :: cint) + low) = ?m + sint low" .
  have "rand_range g low high w = Inr (word_of_int ?m + low, w')"
    by (simp add: rand_range_def rw rem)
  moreover have "sint low \<le> ?m + sint low" "?m + sint low \<le> sint high"
    using m0 m1 big by simp_all
  ultimately show ?thesis
    using v by auto
qed


section \<open>The run of main\<close>

lemma sint_succ_le_REPETITIONS:
  fixes i :: cint
  assumes "sint i \<le> sint REPETITIONS"
  shows "sint (i + 1) = sint i + 1"
proof -
  have lo: "- (2 ^ 31) \<le> sint i"
    using sint_ge [of i] by simp
  have hi: "sint i \<le> 10"
    using assms by (simp add: REPETITIONS_def)
  have "sint (i + 1) = signed_take_bit 31 (sint i + 1)"
    by (simp add: sint_word_ariths)
  also have "\<dots> = sint i + 1"
    using lo hi by (intro signed_take_bit_int_eq_self) simp_all
  finally show ?thesis .
qed

lemma main_loop1_run:
  assumes "sint i = sint REPETITIONS + 1 - int n"
  shows "main_loop1 g i w =
     w\<lparr>gen_state := after_draws g (gen_state w) n,
       lib_calls := lib_calls w @ map CallRand (draws g (gen_state w) n),
       stdout := stdout w @ value_lines (draws g (gen_state w) n)\<rparr>"
  using assms
proof (induction n arbitrary: i w)
  case 0
  then have "\<not> sint i \<le> sint REPETITIONS" by simp
  then show ?case
    by (subst main_loop1.simps) (simp add: value_lines_def)
next
  case (Suc n)
  then have le: "sint i \<le> sint REPETITIONS" by simp
  then have "sint (i + 1) = sint REPETITIONS + 1 - int n"
    using Suc.prems by (simp add: sint_succ_le_REPETITIONS)
  note ih = Suc.IH [OF this]
  show ?case
    by (subst main_loop1.simps)
       (simp add: le ih rand_eq cout_endl_def cout_int_def cout_str_def value_lines_def
          split: prod.split)
qed

lemma rand_range_ranged:
  assumes "high - low + 1 \<noteq> 0" "high - low + 1 \<noteq> - 1"
  shows "rand_range g low high w = Inr (ranged low high (fst (rand g w)), snd (rand g w))"
  using assms by (simp add: rand_range_def int_rem_def ranged_def split: prod.split)

lemma main_loop2_run:
  assumes "sint i = sint REPETITIONS + 1 - int n"
    and "high - low + 1 \<noteq> 0" "high - low + 1 \<noteq> - 1"
  shows "main_loop2 g low high i w =
     Inr (w\<lparr>gen_state := after_draws g (gen_state w) n,
       lib_calls := lib_calls w @ map CallRand (draws g (gen_state w) n),
       stdout := stdout w @ value_lines (map (ranged low high) (draws g (gen_state w) n))\<rparr>)"
  using assms(1)
proof (induction n arbitrary: i w)
  case 0
  then have "\<not> sint i \<le> sint REPETITIONS" by simp
  then show ?case
    by (subst main_loop2.simps) (simp add: value_lines_def)
next
  case (Suc n)
  then have le: "sint i \<le> sint REPETITIONS" by simp
  then have "sint (i + 1) = sint REPETITIONS + 1 - int n"
    using Suc.prems by (simp add: sint_succ_le_REPETITIONS)
  note ih = Suc.IH [OF this]
  show ?case
    by (subst main_loop2.simps)
       (simp add: le ih rand_range_ranged [OF assms(2,3)] rand_eq cout_endl_def cout_int_def
          cout_str_def value_lines_def split: prod.split)
qed


lemma main_run:
  fixes g :: "'s prng"
  defines "s0 \<equiv> \<lambda>now :: clong. lib_srand g (ucast now)"
  shows "main g now w =
     Inr (w\<lparr>gen_state := after_draws g (after_draws g (s0 now) reps) reps,
       lib_calls := lib_calls w @ CallSrand (ucast now)
         # map CallRand (draws g (s0 now) reps)
         @ map CallRand (draws g (after_draws g (s0 now) reps) reps),
       stdout := stdout w @ [newline] @ block1_header g @ [newline]
         @ value_lines (draws g (s0 now) reps)
         @ [newline] @ block2_header @ [newline]
         @ value_lines (map (ranged 200 300) (draws g (after_draws g (s0 now) reps) reps))\<rparr>)"
proof -
  have i: "sint (1 :: cint) = sint REPETITIONS + 1 - int reps"
    by (simp add: reps_def REPETITIONS_def)
  have z: "(300 :: cint) - 200 + 1 \<noteq> 0" "(300 :: cint) - 200 + 1 \<noteq> - 1"
    by simp_all
  show ?thesis
    unfolding main_def Let_def main_loop1_run [OF i]
    by (simp add: main_loop2_run [OF i z] srand_def cout_endl_def cout_int_def cout_str_def
        block1_header_def block2_header_def s0_def)
qed

lemma length_draws [simp]: "length (draws g s n) = n"
  by (induction n arbitrary: s) (simp_all split: prod.split)

lemma draws_in_range:
  assumes "prng_ok g" "r \<in> set (draws g s n)"
  shows "0 \<le> sint r \<and> sint r \<le> sint (lib_RAND_MAX g)"
  using assms(2)
proof (induction n arbitrary: s)
  case 0
  then show ?case by simp
next
  case (Suc n)
  obtain x s' where x: "lib_rand g s = (x, s')"
    by (cases "lib_rand g s")
  have "0 \<le> sint x \<and> sint x \<le> sint (lib_RAND_MAX g)"
    using assms(1) x unfolding prng_ok_def by (metis fst_conv)
  with Suc x show ?case by auto
qed

lemma ranged_200_300:
  assumes "0 \<le> sint r"
  shows "200 \<le> sint (ranged 200 300 r) \<and> sint (ranged 200 300 r) \<le> 300"
proof -
  have "sint (ranged 200 300 r) = sint r mod 101 + 200"
    using ranged_valid(2) [OF assms, of 200 300] by simp
  moreover have "0 \<le> sint r mod 101" "sint r mod 101 < 101"
    by simp_all
  ultimately show ?thesis by simp
qed

lemma digit_not_newline:
  fixes d :: nat
  assumes "d < 10"
  shows "char_of (48 + d) \<noteq> newline"
proof
  assume "char_of (48 + d) = newline"
  then have "(of_char (char_of (48 + d)) :: nat) = of_char newline"
    by simp
  then show False
    using assms by (simp add: newline_def)
qed

lemma dec_digits_no_newline: "newline \<notin> set (dec_digits n)"
proof (induction n rule: dec_digits.induct)
  case (1 n)
  show ?case
  proof (cases "n < 10")
    case True
    then show ?thesis
      using digit_not_newline [of n] by (subst dec_digits.simps) auto
  next
    case False
    have "n mod 10 < 10" by simp
    then have "char_of (48 + n mod 10) \<noteq> newline"
      by (rule digit_not_newline)
    with False 1 show ?thesis
      by (subst dec_digits.simps) auto
  qed
qed

lemma show_int_no_newline [simp]: "count_list (show_int k) newline = 0"
proof -
  have "newline \<notin> set (show_int k)"
    using dec_digits_no_newline by (simp add: show_int_def newline_def)
  then show ?thesis by (simp add: count_list_0_iff)
qed

lemma value_lines_count [simp]: "count_list (value_lines vs) newline = length vs"
  by (induction vs) (simp_all add: value_lines_def)

lemma headers_no_newline [simp]:
  "count_list (block1_header g) newline = 0"
  "count_list block2_header newline = 0"
proof -
  have h: "count_list ''Displaying '' newline = 0"
       "count_list '' random numbers between 0 and '' newline = 0"
       "count_list '' random numbers between '' newline = 0"
       "count_list '' and '' newline = 0"
    by (simp_all add: newline_def)
  show "count_list (block1_header g) newline = 0" "count_list block2_header newline = 0"
    by (simp_all only: block1_header_def block2_header_def count_list_append h show_int_no_newline)
qed


lemma lines_of_line:
  assumes "newline \<notin> set l"
  shows "lines_of (l @ newline # rest) = l # lines_of rest"
  using assms by (induction l) auto

lemma show_int_line:
  "lines_of (show_int k @ newline # rest) = show_int k # lines_of rest"
proof -
  have "newline \<notin> set (show_int k)"
    by (rule count_list_0_iff [THEN iffD1, OF show_int_no_newline])
  then show ?thesis by (rule lines_of_line)
qed

lemma lines_of_value_lines:
  "lines_of (value_lines vs @ rest) = map (\<lambda>v. show_int (sint v)) vs @ lines_of rest"
  by (induction vs) (simp_all add: value_lines_def show_int_line)

lemma lines_of_value_lines_end:
  "lines_of (value_lines vs) = map (\<lambda>v. show_int (sint v)) vs"
  using lines_of_value_lines [of vs "[]"] by simp

lemma header_lines:
  "lines_of (block1_header g @ newline # rest) = block1_header g # lines_of rest"
  "lines_of (block2_header @ newline # rest) = block2_header # lines_of rest"
proof -
  have "newline \<notin> set (block1_header g)"
    by (rule count_list_0_iff [THEN iffD1, OF headers_no_newline(1)])
  then show "lines_of (block1_header g @ newline # rest) = block1_header g # lines_of rest"
    by (rule lines_of_line)
  have "newline \<notin> set block2_header"
    by (rule count_list_0_iff [THEN iffD1, OF headers_no_newline(2)])
  then show "lines_of (block2_header @ newline # rest) = block2_header # lines_of rest"
    by (rule lines_of_line)
qed

lemma dec_digits_nonempty: "dec_digits n \<noteq> []"
  by (subst dec_digits.simps) simp

lemma show_int_nonempty [simp]: "show_int k \<noteq> []"
  by (simp add: show_int_def dec_digits_nonempty)

lemma headers_nonempty [simp]: "block1_header g \<noteq> []" "block2_header \<noteq> []"
  by (simp_all add: block1_header_def block2_header_def)

lemma filter_shown [simp]:
  "filter (\<lambda>l. l \<noteq> []) (map (\<lambda>v. show_int (sint v)) vs) = map (\<lambda>v. show_int (sint v)) vs"
  by (induction vs) simp_all

lemma draws_add:
  "draws g s (n + m) = draws g s n @ draws g (after_draws g s n) m"
  by (induction n arbitrary: s) (simp_all split: prod.split)

lemma drawn_rands [simp]: "drawn (map CallRand rs) = rs"
  by (induction rs) (simp_all add: drawn_def)

lemma drawn_srand [simp]: "drawn (CallSrand x # cs) = drawn cs"
  by (simp add: drawn_def)

lemma main_calls:
  "\<exists>v. main g now w = Inr v
     \<and> lib_calls v = lib_calls w @ CallSrand (ucast now)
         # map CallRand (draws g (lib_srand g (ucast now)) (2 * reps))"
proof -
  have "2 * reps = reps + reps" by simp
  then show ?thesis
    by (simp only: draws_add main_run) simp
qed


section \<open>A run on the sample generator\<close>

lemma iso_prng_ok: "prng_ok iso_prng"
proof -
  have "0 \<le> sint (y mod 32768) \<and> sint (y mod 32768) \<le> 32767" for y :: "32 word"
  proof -
    have "uint (y mod 32768) = uint y mod 32768"
      by (simp add: uint_mod_distrib)
    then have u: "0 \<le> uint (y mod 32768)" "uint (y mod 32768) < 32768"
      by simp_all
    have "sint (y mod 32768) = signed_take_bit 31 (uint (y mod 32768))"
      by (simp add: sint_uint)
    also have "\<dots> = uint (y mod 32768)"
    proof (rule signed_take_bit_int_eq_self)
      have "(0 :: int) \<le> 2 ^ 31" by simp
      then show "- (2 ^ 31) \<le> uint (y mod 32768)"
        using uint_ge_0 [of "y mod 32768"] by linarith
      show "uint (y mod 32768) < 2 ^ 31"
        using u(2) by simp
    qed
    finally show ?thesis
      using u by simp
  qed
  then show ?thesis
    by (simp add: prng_ok_def iso_prng_def Let_def)
qed



lemma reps_Suc: "reps = Suc (Suc (Suc (Suc (Suc (Suc (Suc (Suc (Suc (Suc 0)))))))))"
  by (simp add: reps_def REPETITIONS_def eval_nat_numeral)

lemma iso_draws_first:
  "draws iso_prng 1 reps = [16838, 5758, 10113, 17515, 31051, 5627, 23010, 7419, 16212, 4086]"
  "after_draws iso_prng 1 reps = 267834847"
  unfolding reps_Suc draws.simps after_draws.simps
  by (simp_all add: iso_prng_def)


lemma iso_draws_second:
  "draws iso_prng 267834847 reps =
     [2749, 12767, 9084, 12060, 32225, 17543, 25089, 21183, 25137, 25566]"
  "after_draws iso_prng 267834847 reps = 3823029677"
  unfolding reps_Suc draws.simps after_draws.simps
  by (simp_all add: iso_prng_def)

lemma iso_ranged:
  "map (ranged 200 300) [2749, 12767, 9084, 12060, 32225, 17543, 25089, 21183, 25137, 25566]
     = [222, 241, 295, 241, 206, 270, 241, 274, 289, 213]"
  by (simp add: ranged_def smod_int_alt_def)

lemma digit_chars:
  "char_of (48 :: nat) = CHR ''0''" "char_of (49 :: nat) = CHR ''1''"
  "char_of (50 :: nat) = CHR ''2''" "char_of (51 :: nat) = CHR ''3''"
  "char_of (52 :: nat) = CHR ''4''" "char_of (53 :: nat) = CHR ''5''"
  "char_of (54 :: nat) = CHR ''6''" "char_of (55 :: nat) = CHR ''7''"
  "char_of (56 :: nat) = CHR ''8''" "char_of (57 :: nat) = CHR ''9''"
  by (simp_all add: char_of_def bit_0)

lemma iso_run:
  "main iso_prng 1 (boot 0) =
     Inr \<lparr>gen_state = 3823029677,
        lib_calls =
          [CallSrand 1, CallRand 16838, CallRand 5758, CallRand 10113,
           CallRand 17515, CallRand 31051, CallRand 5627, CallRand 23010,
           CallRand 7419, CallRand 16212, CallRand 4086, CallRand 2749,
           CallRand 12767, CallRand 9084, CallRand 12060, CallRand 32225,
           CallRand 17543, CallRand 25089, CallRand 21183, CallRand 25137,
           CallRand 25566],
        stdout =
          ''\<newline>Displaying 10 random numbers between 0 and 32767\<newline>16838\<newline>5758\<newline>10113\<newline>17515\<newline>31051\<newline>5627\<newline>23010\<newline>7419\<newline>16212\<newline>4086\<newline>\<newline>Displaying 10 random numbers between 200 and 300\<newline>222\<newline>241\<newline>295\<newline>241\<newline>206\<newline>270\<newline>241\<newline>274\<newline>289\<newline>213\<newline>''\<rparr>"
proof -
  have s0: "lib_srand iso_prng (ucast (1 :: clong)) = 1"
    by (simp add: iso_prng_def)
  have h1: "block1_header iso_prng = ''Displaying 10 random numbers between 0 and 32767''"
    by (simp add: block1_header_def REPETITIONS_def iso_prng_def show_int_def dec_digits.simps digit_chars)
  have h2: "block2_header = ''Displaying 10 random numbers between 200 and 300''"
    by (simp add: block2_header_def REPETITIONS_def show_int_def dec_digits.simps digit_chars)
  have v1: "value_lines [16838, 5758, 10113, 17515, 31051, 5627, 23010, 7419, 16212, 4086]
      = ''16838\<newline>5758\<newline>10113\<newline>17515\<newline>31051\<newline>5627\<newline>23010\<newline>7419\<newline>16212\<newline>4086\<newline>''"
    by (simp add: value_lines_def show_int_def dec_digits.simps digit_chars newline_def)
  have v2: "value_lines [222, 241, 295, 241, 206, 270, 241, 274, 289, 213]
      = ''222\<newline>241\<newline>295\<newline>241\<newline>206\<newline>270\<newline>241\<newline>274\<newline>289\<newline>213\<newline>''"
    by (simp add: value_lines_def show_int_def dec_digits.simps digit_chars newline_def)
  show ?thesis
    unfolding main_run s0 iso_draws_first iso_draws_second iso_ranged h1 h2 v1 v2
    by (simp add: boot_def newline_def)
qed



section \<open>The range-mapped draw\<close>

text \<open>
  Claim C5. For every \<open>int\<close> value \<open>low\<close>, \<open>rand_range(low, low)\<close> returns exactly \<open>low\<close>,
  whatever value the call of \<open>rand\<close> produces; the generator moves on by that one call.
\<close>

theorem rand_range_single_point:
  "rand_range g low low w = Inr (low, snd (rand g w))"
proof -
  obtain r w' where rw: "rand g w = (r, w')"
    by (cases "rand g w")
  have "int_rem r 1 = Inr 0"
    by (simp add: int_rem_def smod_int_alt_def)
  then show ?thesis
    by (simp add: rand_range_def rw)
qed


text \<open>
  Where the code and the algorithm of the specification agree: on an interval
  \<open>low \<le> high\<close> whose size fits \<open>int\<close>, and for a draw \<open>r \<ge> 0\<close>, the call returns the value
  that \<open>(r mod size) + low\<close> has over the mathematical integers; it advances the generator
  by that one draw, records that one call and writes nothing.
\<close>

lemma rand_range_spec_on_fitting_size:
  fixes low high :: cint
  assumes rw: "rand g w = (r, w')" and r: "0 \<le> sint r"
    and lh: "sint low \<le> sint high"
    and fit: "sint high - sint low + 1 \<le> sint INT_MAX"
  shows "(\<exists>v. rand_range g low high w = Inr (v, w')
            \<and> sint v = spec_range_map (sint r) (sint low) (sint high))
       \<and> gen_state w' = snd (lib_rand g (gen_state w))
       \<and> lib_calls w' = lib_calls w @ [CallRand r]
       \<and> stdout w' = stdout w"
proof (intro conjI)
  have "sint high - sint low + 1 < 2 ^ 31"
    using fit by (simp add: INT_MAX_def)
  then show "\<exists>v. rand_range g low high w = Inr (v, w')
      \<and> sint v = spec_range_map (sint r) (sint low) (sint high)"
    using rand_range_valid [OF rw r lh] by (simp add: spec_range_map_def)
next
  have w': "w' = snd (rand g w)" and r': "r = fst (rand g w)"
    using rw by simp_all
  show "gen_state w' = snd (lib_rand g (gen_state w))"
    by (simp add: w' rand_eq)
  show "lib_calls w' = lib_calls w @ [CallRand r]"
    by (simp add: w' r' rand_eq)
  show "stdout w' = stdout w"
    by (simp add: w' rand_eq)
qed

text \<open>
  Claim C3, at an input where the code misses it. The claim is that \<open>rand_range(low, high)\<close>
  takes one draw \<open>r\<close>, computes \<open>size = high - low + 1\<close> and returns \<open>(r mod size) + low\<close>.
  On the valid interval \<open>low = INT_MIN\<close>, \<open>high = INT_MAX - 1\<close> the size \<open>2 ^ 32 - 1\<close> does
  not fit \<open>int\<close> and is computed as \<open>-1\<close>: with the draw 16838 (the sample generator seeded
  with 1) the call returns \<open>INT_MIN = -2147483648\<close>, where the algorithm gives
  \<open>16838 mod (2 ^ 32 - 1) + INT_MIN = -2147466810\<close>.
\<close>

theorem rand_range_wrapped_size_departs_from_algorithm:
  "sint INT_MIN \<le> sint (INT_MAX - 1)
   \<and> sint (INT_MAX - 1) - sint INT_MIN + 1 = 4294967295
   \<and> sint (INT_MAX - 1 - INT_MIN + 1) = - 1
   \<and> rand iso_prng (boot 1) =
       (16838, \<lparr>gen_state = 1103527590, lib_calls = [CallRand 16838], stdout = []\<rparr>)
   \<and> rand_range iso_prng INT_MIN (INT_MAX - 1) (boot 1) =
       Inr (INT_MIN, \<lparr>gen_state = 1103527590, lib_calls = [CallRand 16838], stdout = []\<rparr>)
   \<and> sint INT_MIN = - 2147483648
   \<and> spec_range_map (sint (16838 :: cint)) (sint INT_MIN) (sint (INT_MAX - 1)) = - 2147466810"
  by (simp add: rand_range_def iso_first_draw int_rem_def INT_MIN_def INT_MAX_def
      smod_int_alt_def spec_range_map_def)


text \<open>
  Claim C1, at the input where the code misses it: \<open>INT_MIN \<le> INT_MAX\<close> is a valid
  interval, yet \<open>rand_range(INT_MIN, INT_MAX)\<close> divides by zero and returns no value,
  whatever the generator.
\<close>

theorem rand_range_full_int_range_faults:
  "sint INT_MIN \<le> sint INT_MAX \<and> rand_range g INT_MIN INT_MAX w = Inl DivideByZero"
  using rand_range_zero_size [OF full_range_size, of g w]
  by (simp add: INT_MIN_def INT_MAX_def)


text \<open>
  Claim C9. There are \<open>low \<le> high\<close> for which \<open>size = high - low + 1\<close> overflows \<open>int\<close>
  and wraps to a non-positive value, so that the call faults although the precondition
  holds: for \<open>low = INT_MIN\<close>, \<open>high = INT_MAX\<close> the true size is \<open>2 ^ 32\<close>, the computed
  size is \<open>0\<close>, and the call ends in a division by zero.
\<close>

theorem rand_range_size_overflow:
  "\<exists>low high :: cint.
     low = INT_MIN \<and> high = INT_MAX
     \<and> sint low \<le> sint high
     \<and> sint high - sint low + 1 = 2 ^ 32
     \<and> sint (high - low + 1) \<le> 0
     \<and> high - low + 1 = 0
     \<and> rand_range g low high w = Inl DivideByZero"
  using rand_range_zero_size [OF full_range_size, of g w] full_range_size
  by (simp add: INT_MIN_def INT_MAX_def)


text \<open>
  Claim C10. With a draw \<open>r \<ge> 0\<close>: when \<open>high < low - 1\<close> and the size
  \<open>high - low + 1\<close> (negative) fits \<open>int\<close>, the divisor is not zero and the call returns
  \<open>(r mod |size|) + low\<close>; the call faults exactly when the computed size is \<open>0\<close>, which,
  when the size does not overflow, is exactly when \<open>high = low - 1\<close>.
\<close>

theorem rand_range_fault_only_zero_size:
  fixes low high :: cint
  assumes rw: "rand g w = (r, w')" and r: "0 \<le> sint r"
  shows "(sint high < sint low - 1 \<and> sint INT_MIN \<le> sint high - sint low + 1 \<longrightarrow>
            rand_range g low high w =
              Inr (word_of_int (sint r mod \<bar>sint high - sint low + 1\<bar>) + low, w'))
       \<and> ((\<exists>e. rand_range g low high w = Inl e) \<longleftrightarrow> high - low + 1 = 0)
       \<and> (sint INT_MIN \<le> sint high - sint low + 1 \<and> sint high - sint low + 1 \<le> sint INT_MAX \<longrightarrow>
            ((\<exists>e. rand_range g low high w = Inl e) \<longleftrightarrow> sint high = sint low - 1))"
proof (intro conjI impI)
  assume a: "sint high < sint low - 1 \<and> sint INT_MIN \<le> sint high - sint low + 1"
  then have size: "sint (high - low + 1) = sint high - sint low + 1"
    by (intro sint_size_no_overflow) (simp_all add: INT_MIN_def)
  with a have neg: "sint (high - low + 1) < 0"
    by simp
  show "rand_range g low high w =
      Inr (word_of_int (sint r mod \<bar>sint high - sint low + 1\<bar>) + low, w')"
    using int_rem_nonneg_neg [OF r neg] size by (simp add: rand_range_def rw)
next
  show "(\<exists>e. rand_range g low high w = Inl e) \<longleftrightarrow> high - low + 1 = 0"
    by (rule rand_range_fault_iff [OF rw r])
next
  assume a: "sint INT_MIN \<le> sint high - sint low + 1 \<and> sint high - sint low + 1 \<le> sint INT_MAX"
  have "\<not> (low = INT_MIN \<and> high = INT_MAX)"
    using a by (auto simp: INT_MIN_def INT_MAX_def)
  then have "high - low + 1 = 0 \<longleftrightarrow> sint high = sint low - 1"
    by (simp only: size_zero_iff) simp
  then show "(\<exists>e. rand_range g low high w = Inl e) \<longleftrightarrow> sint high = sint low - 1"
    using rand_range_fault_iff [OF rw r, of low high] by simp
qed

theorem rand_range_fault_only_zero_size_witness:
  "rand iso_prng (boot 1) =
     (16838, \<lparr>gen_state = 1103527590, lib_calls = [CallRand 16838], stdout = []\<rparr>)
   \<and> 0 \<le> sint (16838 :: cint)
   \<and> sint (200 :: cint) < sint (300 :: cint) - 1
   \<and> sint INT_MIN \<le> sint (200 :: cint) - sint (300 :: cint) + 1
   \<and> sint (200 :: cint) - sint (300 :: cint) + 1 \<le> sint INT_MAX
   \<and> rand_range iso_prng 300 200 (boot 1) =
       Inr (308, \<lparr>gen_state = 1103527590, lib_calls = [CallRand 16838], stdout = []\<rparr>)
   \<and> sint (299 :: cint) = sint (300 :: cint) - 1
   \<and> rand_range iso_prng 300 299 (boot 1) = Inl DivideByZero"
proof -
  note t1 = rand_range_fault_only_zero_size [OF iso_first_draw, of 200 300]
  note t2 = rand_range_fault_only_zero_size [OF iso_first_draw, of 299 300]
  have a: "rand_range iso_prng 300 200 (boot 1) =
       Inr (308, \<lparr>gen_state = 1103527590, lib_calls = [CallRand 16838], stdout = []\<rparr>)"
    using t1 by (simp add: INT_MIN_def)
  have "\<exists>e. rand_range iso_prng 300 299 (boot 1) = Inl e"
    using t2 by simp
  then have b: "rand_range iso_prng 300 299 (boot 1) = Inl DivideByZero"
    by (auto simp: rand_range_def iso_first_draw int_rem_def split: if_splits)
  show ?thesis
    using a b iso_first_draw by (simp add: INT_MIN_def INT_MAX_def)
qed


text \<open>
  Claim C2 as stated fails: with the standard's sample generator seeded with 1,
  \<open>rand_range(300, 200)\<close> returns 308 and raises nothing.
\<close>

theorem rand_range_reversed_interval_returns:
  "sint (200 :: cint) < sint (300 :: cint) \<and>
   rand_range iso_prng 300 200 (boot 1) =
     Inr (308, \<lparr>gen_state = 1103527590, lib_calls = [CallRand 16838], stdout = []\<rparr>)"
  by (simp add: rand_range_def iso_first_draw int_rem_def INT_MIN_def smod_int_alt_def)


text \<open>
  Claim C2, amended. For \<open>high < low\<close> and a draw \<open>r \<ge> 0\<close>: when \<open>high = low - 1\<close> the
  call fails with a division by zero and returns no value; when \<open>high < low - 1\<close> it
  returns \<open>(r % (high - low + 1)) + low\<close>, computed from \<open>low\<close> and \<open>high\<close> as given.
\<close>

theorem rand_range_reversed_interval:
  fixes low high :: cint
  assumes lt: "sint high < sint low" and rw: "rand g w = (r, w')" and r: "0 \<le> sint r"
  shows "(sint high = sint low - 1 \<longrightarrow> rand_range g low high w = Inl DivideByZero)
       \<and> (sint high < sint low - 1 \<longrightarrow>
            rand_range g low high w =
              Inr (word_of_int (sint r smod sint (high - low + 1)) + low, w'))"
proof (intro conjI impI)
  assume "sint high = sint low - 1"
  then have "high - low + 1 = 0"
    by (simp only: size_zero_iff) simp
  then show "rand_range g low high w = Inl DivideByZero"
    by (rule rand_range_zero_size)
next
  assume "sint high < sint low - 1"
  then have "high - low + 1 \<noteq> 0"
    by (rule reversed_size_nonzero)
  moreover have "r \<noteq> INT_MIN"
    using r by (auto simp: INT_MIN_def)
  ultimately show "rand_range g low high w =
      Inr (word_of_int (sint r smod sint (high - low + 1)) + low, w')"
    by (simp add: rand_range_def rw int_rem_def)
qed

theorem rand_range_reversed_interval_witness:
  "sint (299 :: cint) < sint (300 :: cint)
   \<and> sint (150 :: cint) < sint (300 :: cint)
   \<and> rand iso_prng (boot 1) =
       (16838, \<lparr>gen_state = 1103527590, lib_calls = [CallRand 16838], stdout = []\<rparr>)
   \<and> 0 \<le> sint (16838 :: cint)
   \<and> sint (299 :: cint) = sint (300 :: cint) - 1
   \<and> rand_range iso_prng 300 299 (boot 1) = Inl DivideByZero
   \<and> sint (150 :: cint) < sint (300 :: cint) - 1
   \<and> rand_range iso_prng 300 150 (boot 1) =
       Inr (301, \<lparr>gen_state = 1103527590, lib_calls = [CallRand 16838], stdout = []\<rparr>)"
  using iso_first_draw
    rand_range_reversed_interval [OF _ iso_first_draw, of 299 300]
    rand_range_reversed_interval [OF _ iso_first_draw, of 150 300]
  by (simp add: smod_int_alt_def)



text \<open>
  Claim C6. For \<open>low = 20\<close>, \<open>high = 30\<close>: every range-mapped draw (of a draw \<open>r \<ge> 0\<close>)
  lies in \<open>{20, ..., 30}\<close>; and every \<open>v\<close> in \<open>{20, ..., 30}\<close> is reached, by the draw
  \<open>r = v - 20\<close>, which lies in \<open>[0, 10]\<close> and so in \<open>[0, RAND_MAX]\<close> for every library.
\<close>

theorem rand_range_20_30_onto:
  "(\<forall>(g :: 's prng) w. 0 \<le> sint (fst (rand g w)) \<longrightarrow>
      (\<exists>v. rand_range g 20 30 w = Inr (v, snd (rand g w)) \<and> 20 \<le> sint v \<and> sint v \<le> 30))
   \<and> (\<forall>v :: cint. 20 \<le> sint v \<and> sint v \<le> 30 \<longrightarrow>
      (\<exists>r :: cint. r = v - 20 \<and> 0 \<le> sint r \<and> sint r \<le> 10
         \<and> (\<forall>(g :: 's prng) w. fst (rand g w) = r \<longrightarrow>
               rand_range g 20 30 w = Inr (v, snd (rand g w)))))"
proof (intro conjI allI impI)
  fix g :: "'s prng" and w
  assume r: "0 \<le> sint (fst (rand g w))"
  obtain v where v: "rand_range g 20 30 w = Inr (v, snd (rand g w))"
      "sint v = sint (fst (rand g w)) mod 11 + 20"
    using rand_range_20_30 [OF r] by blast
  have "0 \<le> sint (fst (rand g w)) mod 11" "sint (fst (rand g w)) mod 11 < 11"
    by simp_all
  with v show "\<exists>v. rand_range g 20 30 w = Inr (v, snd (rand g w)) \<and> 20 \<le> sint v \<and> sint v \<le> 30"
    by auto
next
  fix v :: cint
  assume v: "20 \<le> sint v \<and> sint v \<le> 30"
  have "v - 20 = (word_of_int (sint v - 20) :: cint)"
    by simp
  then have "sint (v - 20) = signed_take_bit 31 (sint v - 20)"
    by (simp only: sint_sbintrunc') simp
  also have "\<dots> = sint v - 20"
    using v by (intro signed_take_bit_int_eq_self) simp_all
  finally have s: "sint (v - 20) = sint v - 20" .
  have onto: "rand_range g 20 30 w = Inr (v, snd (rand g w))"
    if eq: "fst (rand g w) = v - 20" for g :: "'s prng" and w
  proof -
    have r: "0 \<le> sint (fst (rand g w))"
      using v s eq by simp
    obtain u where u: "rand_range g 20 30 w = Inr (u, snd (rand g w))"
        "sint u = sint (fst (rand g w)) mod 11 + 20"
      using rand_range_20_30 [OF r] by blast
    have "sint u = sint v"
      using u(2) v s eq by simp
    then have "u = v"
      by (rule sint_inject)
    with u(1) show ?thesis by simp
  qed
  show "\<exists>r :: cint. r = v - 20 \<and> 0 \<le> sint r \<and> sint r \<le> 10
         \<and> (\<forall>(g :: 's prng) w. fst (rand g w) = r \<longrightarrow>
               rand_range g 20 30 w = Inr (v, snd (rand g w)))"
    using v s onto by auto
qed

theorem rand_range_20_30_onto_witness:
  "0 \<le> sint (fst (rand iso_prng (boot 1)))
   \<and> rand_range iso_prng 20 30 (boot 1) =
       Inr (28, \<lparr>gen_state = 1103527590, lib_calls = [CallRand 16838], stdout = []\<rparr>)
   \<and> 20 \<le> sint (25 :: cint) \<and> sint (25 :: cint) \<le> 30
   \<and> fst (rand iso_prng (boot 2507187843)) = 25 - 20
   \<and> rand_range iso_prng 20 30 (boot 2507187843) =
       Inr (25, \<lparr>gen_state = 327680, lib_calls = [CallRand 5], stdout = []\<rparr>)"
proof -
  note t = rand_range_20_30_onto [where ?'s = "32 word"]
  have a': "rand_range iso_prng 20 30 (boot 1) =
       Inr (28, \<lparr>gen_state = 1103527590, lib_calls = [CallRand 16838], stdout = []\<rparr>)"
    by (simp add: rand_range_def iso_first_draw int_rem_def INT_MIN_def smod_int_alt_def)
  have "rand_range iso_prng 20 30 (boot 2507187843) = Inr (25, snd (rand iso_prng (boot 2507187843)))"
    using t [THEN conjunct2, rule_format, of 25] iso_draw_5 by simp
  then show ?thesis
    using a' iso_first_draw iso_draw_5 by simp
qed



section \<open>The driver\<close>

text \<open>
  Claim C4 as stated fails: on the sample generator, with the clock at 1, the run writes
  24 lines and not \<open>2 * REPETITIONS + 2 = 22\<close>, because each header is preceded by an
  empty line (\<^verbatim>\<open>cout << endl << "Displaying "\<close>).
\<close>

theorem main_prints_blank_lines:
  "main iso_prng 1 (boot 0) =
     Inr \<lparr>gen_state = 3823029677,
        lib_calls =
          [CallSrand 1, CallRand 16838, CallRand 5758, CallRand 10113,
           CallRand 17515, CallRand 31051, CallRand 5627, CallRand 23010,
           CallRand 7419, CallRand 16212, CallRand 4086, CallRand 2749,
           CallRand 12767, CallRand 9084, CallRand 12060, CallRand 32225,
           CallRand 17543, CallRand 25089, CallRand 21183, CallRand 25137,
           CallRand 25566],
        stdout =
          ''\<newline>Displaying 10 random numbers between 0 and 32767\<newline>16838\<newline>5758\<newline>10113\<newline>17515\<newline>31051\<newline>5627\<newline>23010\<newline>7419\<newline>16212\<newline>4086\<newline>\<newline>Displaying 10 random numbers between 200 and 300\<newline>222\<newline>241\<newline>295\<newline>241\<newline>206\<newline>270\<newline>241\<newline>274\<newline>289\<newline>213\<newline>''\<rparr>
   \<and> count_list (stdout (projr (main iso_prng 1 (boot 0)))) newline = 24
   \<and> length (lines_of (stdout (projr (main iso_prng 1 (boot 0))))) = 24
   \<and> (24 :: int) \<noteq> 2 * sint REPETITIONS + 2"
  by (simp add: iso_run newline_def REPETITIONS_def)



text \<open>
  Claim C4, amended. With a library whose \<open>rand\<close> stays in \<open>[0, RAND_MAX]\<close>, a full run
  prints exactly \<open>2 * REPETITIONS + 4\<close> lines: for each of the two blocks an empty line,
  the header line and \<open>REPETITIONS\<close> value lines, so \<open>2 * REPETITIONS + 2\<close> lines that are
  not empty; and every value of the second block lies in \<open>[200, 300]\<close>.
\<close>

theorem main_output:
  assumes "prng_ok g"
  shows "\<exists>v (xs :: cint list) (ys :: cint list). main g now (boot s) = Inr v
           \<and> length xs = reps \<and> length ys = reps
           \<and> lines_of (stdout v) =
                [[], block1_header g] @ map (\<lambda>x. show_int (sint x)) xs
                  @ [[], block2_header] @ map (\<lambda>y. show_int (sint y)) ys
           \<and> (\<forall>y \<in> set ys. 200 \<le> sint y \<and> sint y \<le> 300)
           \<and> length (lines_of (stdout v)) = 2 * reps + 4
           \<and> length (filter (\<lambda>l. l \<noteq> []) (lines_of (stdout v))) = 2 * reps + 2"
proof -
  let ?s0 = "lib_srand g (ucast now)"
  let ?xs = "draws g ?s0 reps"
  let ?rs = "draws g (after_draws g ?s0 reps) reps"
  let ?ys = "map (ranged 200 300) ?rs"
  obtain v where v: "main g now (boot s) = Inr v"
    and out: "stdout v = [newline] @ block1_header g @ [newline] @ value_lines ?xs
                          @ [newline] @ block2_header @ [newline] @ value_lines ?ys @ []"
    by (simp add: main_run boot_def)
  have len: "length ?xs = reps" "length ?ys = reps"
    by simp_all
  have rng: "\<forall>y \<in> set ?ys. 200 \<le> sint y \<and> sint y \<le> 300"
    using draws_in_range [OF assms] ranged_200_300 by auto
  have ls: "lines_of (stdout v) =
      [[], block1_header g] @ map (\<lambda>x. show_int (sint x)) ?xs
        @ [[], block2_header] @ map (\<lambda>y. show_int (sint y)) ?ys"
    unfolding out
    by (simp add: header_lines lines_of_value_lines lines_of_value_lines_end del: map_map)
  have n: "length (lines_of (stdout v)) = 2 * reps + 4"
    unfolding ls by simp
  have m: "length (filter (\<lambda>l. l \<noteq> []) (lines_of (stdout v))) = 2 * reps + 2"
    unfolding ls by (simp del: map_map)
  show ?thesis
    by (rule exI [of _ v], rule exI [of _ ?xs], rule exI [of _ ?ys])
       (intro conjI v len rng ls n m)
qed

theorem main_output_witness:
  "prng_ok iso_prng
   \<and> lines_of (stdout (projr (main iso_prng 1 (boot 0)))) =
       [[], ''Displaying 10 random numbers between 0 and 32767'',
        ''16838'', ''5758'', ''10113'', ''17515'', ''31051'', ''5627'', ''23010'', ''7419'',
        ''16212'', ''4086'',
        [], ''Displaying 10 random numbers between 200 and 300'',
        ''222'', ''241'', ''295'', ''241'', ''206'', ''270'', ''241'', ''274'', ''289'', ''213'']
   \<and> length (lines_of (stdout (projr (main iso_prng 1 (boot 0))))) = 2 * reps + 4"
proof -
  have a: "length (lines_of (stdout (projr (main iso_prng 1 (boot 0))))) = 2 * reps + 4"
    using main_output [OF iso_prng_ok, of 1 0] by auto
  have b: "lines_of (stdout (projr (main iso_prng 1 (boot 0)))) =
       [[], ''Displaying 10 random numbers between 0 and 32767'',
        ''16838'', ''5758'', ''10113'', ''17515'', ''31051'', ''5627'', ''23010'', ''7419'',
        ''16212'', ''4086'',
        [], ''Displaying 10 random numbers between 200 and 300'',
        ''222'', ''241'', ''295'', ''241'', ''206'', ''270'', ''241'', ''274'', ''289'', ''213'']"
    by (simp add: iso_run newline_def)
  show ?thesis
    by (intro conjI iso_prng_ok a b)
qed


text \<open>
  Claim C8. In every run the library calls that \<open>main\<close> makes are one call of \<open>srand\<close>
  followed by calls of \<open>rand\<close> only (those of \<open>rand_range\<close> included): the generator
  is seeded exactly once, before any draw.
\<close>

theorem main_seeds_once_before_draws:
  "\<exists>v rs. main g now w = Inr v
     \<and> lib_calls v = lib_calls w @ CallSrand (ucast now) # map CallRand rs
     \<and> length rs = 2 * reps"
proof -
  obtain v where "main g now w = Inr v"
    and "lib_calls v = lib_calls w @ CallSrand (ucast now)
         # map CallRand (draws g (lib_srand g (ucast now)) (2 * reps))"
    using main_calls by blast
  moreover have "length (draws g (lib_srand g (ucast now)) (2 * reps)) = 2 * reps"
    by simp
  ultimately show ?thesis by blast
qed


text \<open>
  Claim C7. Two runs whose clock readings give the same seed are the same run, whatever
  state the generator was in before: the values that \<open>rand\<close> returns during the run are
  the first \<open>2 * REPETITIONS\<close> draws from the state that \<open>srand\<close> makes of the seed.
\<close>

theorem main_draws_determined_by_seed:
  assumes "(ucast now :: cuint) = ucast now'"
  shows "main g now (boot s) = main g now' (boot s')
       \<and> (\<exists>v. main g now (boot s) = Inr v
             \<and> drawn (lib_calls v) = draws g (lib_srand g (ucast now)) (2 * reps))"
proof
  show "main g now (boot s) = main g now' (boot s')"
    by (simp add: main_run assms boot_def)
  obtain v where v: "main g now (boot s) = Inr v"
    and c: "lib_calls v = lib_calls (boot s) @ CallSrand (ucast now)
         # map CallRand (draws g (lib_srand g (ucast now)) (2 * reps))"
    using main_calls by blast
  have "drawn (lib_calls v) = draws g (lib_srand g (ucast now)) (2 * reps)"
    by (simp add: c boot_def)
  with v show "\<exists>v. main g now (boot s) = Inr v
             \<and> drawn (lib_calls v) = draws g (lib_srand g (ucast now)) (2 * reps)"
    by blast
qed

theorem main_draws_determined_by_seed_witness:
  "(ucast (1 :: clong) :: cuint) = ucast (4294967297 :: clong)
   \<and> main iso_prng 1 (boot 0) = main iso_prng 4294967297 (boot 7)
   \<and> drawn (lib_calls (projr (main iso_prng 4294967297 (boot 7)))) =
       [16838, 5758, 10113, 17515, 31051, 5627, 23010, 7419, 16212, 4086,
        2749, 12767, 9084, 12060, 32225, 17543, 25089, 21183, 25137, 25566]"
proof -
  have u: "(ucast (1 :: clong) :: cuint) = ucast (4294967297 :: clong)"
    by simp
  have e: "main iso_prng 4294967297 (boot 7) = main iso_prng 1 (boot 0)"
    using main_draws_determined_by_seed [OF u, of iso_prng 0 7] by simp
  show ?thesis
    by (simp add: e iso_run drawn_def)
qed


end
